theory Spec2Isabelle
  imports Main
begin

section \<open>Python primitives used by writ.py\<close>

text \<open>
  A document is a Python \<open>str\<close>, modelled as a \<open>string\<close> (characters with code points
  below 256). Offsets, rows, columns and heading levels are Python integers, modelled as
  \<open>int\<close>; lengths and the indices produced by \<open>enumerate\<close> are natural numbers.
  The only exception the formatting code can raise is \<open>IndexError\<close>.
\<close>

datatype error = IndexError

definition NL :: char where
  "NL = CHR ''\<newline>''"

text \<open>\<open>str.isspace\<close> on one character, which is also the class \<open>\s\<close> of \<open>re\<close> on a
  \<open>str\<close> pattern: code points 9-13, 28-32, 133 and 160 among those below 256.\<close>

definition isspace :: "char \<Rightarrow> bool" where
  "isspace c = (let n = (of_char c :: nat)
                in (9 \<le> n \<and> n \<le> 13) \<or> (28 \<le> n \<and> n \<le> 32) \<or> n = 133 \<or> n = 160)"

text \<open>\<open>text.split(sep)\<close> for a separator of one character: never the empty list.\<close>

fun py_split :: "char \<Rightarrow> string \<Rightarrow> string list" where
  "py_split sep [] = [[]]"
| "py_split sep (c # cs) =
     (if c = sep then [] # py_split sep cs
      else (case py_split sep cs of [] \<Rightarrow> [[c]] | l # ls \<Rightarrow> (c # l) # ls))"

text \<open>\<open>sep.join(lines)\<close> for a separator of one character.\<close>

fun py_join :: "char \<Rightarrow> string list \<Rightarrow> string" where
  "py_join sep [] = []"
| "py_join sep [l] = l"
| "py_join sep (l # ls) = l @ sep # py_join sep ls"

text \<open>Slices: a negative bound counts from the end, and every bound is clamped to the
  sequence; a slice never raises.\<close>

definition slice_bound :: "nat \<Rightarrow> int \<Rightarrow> nat" where
  "slice_bound n i = (if i < 0 then nat (max 0 (int n + i)) else min n (nat i))"

definition slice :: "'a list \<Rightarrow> int \<Rightarrow> int \<Rightarrow> 'a list" where
  "slice xs lo hi =
     (let l = slice_bound (length xs) lo; h = slice_bound (length xs) hi
      in take (h - l) (drop l xs))"

definition slice_to :: "'a list \<Rightarrow> int \<Rightarrow> 'a list" where
  "slice_to xs hi = take (slice_bound (length xs) hi) xs"

definition slice_from :: "'a list \<Rightarrow> int \<Rightarrow> 'a list" where
  "slice_from xs lo = drop (slice_bound (length xs) lo) xs"

text \<open>Subscription \<open>xs[i]\<close>: a negative index counts from the end, and an index outside
  the sequence raises \<open>IndexError\<close>.\<close>

definition getitem :: "'a list \<Rightarrow> int \<Rightarrow> error + 'a" where
  "getitem xs i =
     (if 0 \<le> i \<and> i < int (length xs) then Inr (xs ! nat i)
      else if i < 0 \<and> - int (length xs) \<le> i then Inr (xs ! nat (int (length xs) + i))
      else Inl IndexError)"

text \<open>\<open>line.lstrip()\<close>: the line without its leading whitespace.\<close>

fun lstrip :: "string \<Rightarrow> string" where
  "lstrip [] = []"
| "lstrip (c # cs) = (if isspace c then lstrip cs else c # cs)"

text \<open>\<open>stripped.startswith(p)\<close>.\<close>

definition startswith :: "string \<Rightarrow> string \<Rightarrow> bool" where
  "startswith s p = (take (length p) s = p)"

text \<open>
  \<open>re.finditer(re.escape(wrapper), s)\<close>: the non-overlapping occurrences of the literal
  \<open>wrapper\<close> in \<open>s\<close>, leftmost first, each as the pair (start, end) of a match object.
  The scan is at index \<open>i\<close>; after a match it resumes at the match's end (one further for
  an empty match).
\<close>

function finditer :: "string \<Rightarrow> string \<Rightarrow> nat \<Rightarrow> (nat \<times> nat) list" where
  "finditer w s i =
     (if length s < i then []
      else if take (length w) (drop i s) = w
        then (i, i + length w) # finditer w s (if w = [] then i + 1 else i + length w)
      else finditer w s (i + 1))"
  by pat_completeness auto
termination
  by (relation "measure (\<lambda>(w, s, i). Suc (length s) - i)") (auto simp: neq_Nil_conv)

declare finditer.simps [simp del]

section \<open>The formatting engine (class Format)\<close>

text \<open>
  The loop of \<open>_wrap\<close> over \<open>range(0, len(matches) - 1, 2)\<close>: the matches are taken two
  by two, an unpaired last match is ignored, and the first pair that encloses
  \<open>search_pos\<close> leaves the loop.
\<close>

fun enclosing_pair :: "(nat \<times> nat) list \<Rightarrow> int \<Rightarrow> ((nat \<times> nat) \<times> (nat \<times> nat)) option" where
  "enclosing_pair (start_match # end_match # rest) search_pos =
     (if int (snd start_match) \<le> search_pos \<and> search_pos \<le> int (fst end_match)
      then Some (start_match, end_match)
      else enclosing_pair rest search_pos)"
| "enclosing_pair _ search_pos = None"

definition wrap :: "string \<Rightarrow> int \<Rightarrow> string \<Rightarrow> string \<times> int" where
  "wrap text pos wrapper =
     (let wlen = int (length wrapper);
          left = max 0 (pos - 20);
          right = min (int (length text)) (pos + 20);
          search_text = slice text left right;
          search_pos = pos - left;
          matches = finditer wrapper search_text 0
      in case enclosing_pair matches search_pos of
           Some (start_match, end_match) \<Rightarrow>
             (let actual_start = left + int (fst start_match);
                  actual_end = left + int (snd end_match);
                  content = slice text (actual_start + wlen) (actual_end - wlen);
                  new_text = slice_to text actual_start @ content @ slice_from text actual_end;
                  new_pos = actual_start + int (length content)
              in (new_text, new_pos))
         | None \<Rightarrow>
             (slice_to text pos @ wrapper @ wrapper @ slice_from text pos, pos + wlen))"

definition bold :: "string \<Rightarrow> int \<Rightarrow> string \<times> int" where
  "bold text pos = wrap text pos ''**''"

definition italic :: "string \<Rightarrow> int \<Rightarrow> string \<times> int" where
  "italic text pos = wrap text pos ''*''"

definition inlineCode :: "string \<Rightarrow> int \<Rightarrow> string \<times> int" where
  "inlineCode text pos = wrap text pos ''`''"

text \<open>The delimiter of the spec's \<open>wrapToggle\<close> and the method it stands for.\<close>

datatype delimiter = Bold | Italic | Code

fun wrapToggle :: "string \<Rightarrow> int \<Rightarrow> delimiter \<Rightarrow> string \<times> int" where
  "wrapToggle text pos Bold = bold text pos"
| "wrapToggle text pos Italic = italic text pos"
| "wrapToggle text pos Code = inlineCode text pos"

text \<open>
  The line-walking loop of \<open>heading\<close> and \<open>listItem\<close>. Its state is
  \<open>(target_line, current_pos)\<close>; \<open>i\<close> is the index \<open>enumerate\<close> gives the head of
  the remaining lines. When the loop ends without \<open>break\<close>, \<open>target_line\<close> keeps the
  value it had before the loop.
\<close>

fun line_loop :: "string list \<Rightarrow> int \<Rightarrow> nat \<Rightarrow> nat \<times> int \<Rightarrow> nat \<times> int" where
  "line_loop [] pos i (target_line, current_pos) = (target_line, current_pos)"
| "line_loop (line # rest) pos i (target_line, current_pos) =
     (if current_pos + int (length line) \<ge> pos then (i, current_pos)
      else line_loop rest pos (Suc i) (target_line, current_pos + int (length line) + 1))"

text \<open>\<open>re.match(r'^(#{1,6})\s*', line)\<close>: the greedy run of at most six \<open>#\<close>, which must
  not be empty, then the greedy run of whitespace; the result is \<open>heading_match.end()\<close>.\<close>

fun hash_run :: "nat \<Rightarrow> string \<Rightarrow> nat" where
  "hash_run 0 s = 0"
| "hash_run (Suc n) [] = 0"
| "hash_run (Suc n) (c # cs) = (if c = CHR ''#'' then Suc (hash_run n cs) else 0)"

fun space_run :: "string \<Rightarrow> nat" where
  "space_run [] = 0"
| "space_run (c # cs) = (if isspace c then Suc (space_run cs) else 0)"

definition heading_match :: "string \<Rightarrow> nat option" where
  "heading_match line =
     (let k = hash_run 6 line
      in if k = 0 then None else Some (k + space_run (drop k line)))"

definition heading :: "string \<Rightarrow> int \<Rightarrow> int \<Rightarrow> error + (string \<times> int)" where
  "heading text pos level =
     (if \<not> (1 \<le> level \<and> level \<le> 6) then Inr (text, pos)
      else
        let lines = py_split NL text;
            (target_line, current_pos) = line_loop lines pos 0 (0, 0)
        in case getitem lines (int target_line) of
             Inl e \<Rightarrow> Inl e
           | Inr line \<Rightarrow>
               (let new_line =
                      (case heading_match line of
                         Some e \<Rightarrow> replicate (nat level) CHR ''#'' @ '' '' @ slice_from line (int e)
                       | None \<Rightarrow> replicate (nat level) CHR ''#'' @ '' '' @ line);
                    old_len = int (length line);
                    lines' = lines[target_line := new_line];
                    new_text = py_join NL lines';
                    pos_in_line = pos - current_pos;
                    new_pos = current_pos
                      + min (pos_in_line + (int (length new_line) - old_len)) (int (length new_line))
                in Inr (new_text, new_pos)))"

definition link :: "string \<Rightarrow> int \<Rightarrow> string \<times> int" where
  "link text pos =
     (let link_text = ''[text](url)''
      in (slice_to text pos @ link_text @ slice_from text pos, pos + 1))"

text \<open>
  The loop of \<open>codeBlock\<close>: \<open>Some\<close> is \<open>current_pos\<close> at the \<open>break\<close>,
  \<open>None\<close> the end of the loop, where the \<open>else\<close> of the \<open>for\<close> runs.
\<close>

fun start_loop :: "string list \<Rightarrow> int \<Rightarrow> int \<Rightarrow> int option" where
  "start_loop [] pos current_pos = None"
| "start_loop (line # rest) pos current_pos =
     (if current_pos + int (length line) \<ge> pos then Some current_pos
      else start_loop rest pos (current_pos + int (length line) + 1))"

text \<open>
  \<open>codeBlock\<close> computes \<open>line_start\<close> and never reads it. \<open>text[pos - 1]\<close> is
  evaluated only when \<open>pos > 0\<close>, and raises when \<open>pos - 1\<close> is not an index of the
  text.
\<close>

definition codeBlock :: "string \<Rightarrow> int \<Rightarrow> error + (string \<times> int)" where
  "codeBlock text pos =
     (let lines = py_split NL text;
          line_start = (case start_loop lines pos 0 of
                          Some current_pos \<Rightarrow> current_pos
                        | None \<Rightarrow> int (length text))
      in case (if pos > 0 then getitem text (pos - 1) else Inr NL) of
           Inl e \<Rightarrow> Inl e
         | Inr c \<Rightarrow>
             (let (block, new_pos) =
                    (if pos > 0 \<and> c \<noteq> NL
                     then (''\<newline>```\<newline>\<newline>```\<newline>'', pos + 5)
                     else (''```\<newline>\<newline>```\<newline>'', pos + 4))
              in Inr (slice_to text pos @ block @ slice_from text pos, new_pos)))"

definition listItem :: "string \<Rightarrow> int \<Rightarrow> error + (string \<times> int)" where
  "listItem text pos =
     (let lines = py_split NL text;
          (target_line, current_pos) = line_loop lines pos 0 (0, 0)
      in case getitem lines (int target_line) of
           Inl e \<Rightarrow> Inl e
         | Inr line \<Rightarrow>
             (let stripped = lstrip line;
                  indent = slice_to line (int (length line) - int (length stripped));
                  (new_line, pos_change) =
                    (if startswith stripped ''- ''
                     then (indent @ slice_from stripped 2, - 2)
                     else (indent @ ''- '' @ stripped, 2));
                  lines' = lines[target_line := new_line];
                  new_text = py_join NL lines';
                  new_pos = pos + pos_change
              in Inr (new_text, new_pos)))"

section \<open>Offset and position conversion (class Writ)\<close>

text \<open>The part of the editor widget the two conversions use: \<open>buffer\<close> is
  \<open>self.editor.text\<close>.\<close>

record editor =
  buffer :: string
  cursor_location :: "int \<times> int"

text \<open>The first loop of \<open>_get_cursor_position\<close>, over \<open>range(row)\<close>.\<close>

fun rows_before :: "string list \<Rightarrow> nat list \<Rightarrow> int \<Rightarrow> int" where
  "rows_before lines [] pos = pos"
| "rows_before lines (i # is) pos =
     rows_before lines is (if i < length lines then pos + int (length (lines ! i)) + 1 else pos)"

definition get_cursor_position :: "editor \<Rightarrow> error + int" where
  "get_cursor_position ed =
     (let (row, col) = cursor_location ed;
          lines = py_split NL (buffer ed);
          pos = rows_before lines [0 ..< nat row] 0
      in if row < int (length lines)
         then (case getitem lines row of
                 Inl e \<Rightarrow> Inl e
               | Inr line \<Rightarrow> Inr (pos + min col (int (length line))))
         else Inr pos)"

text \<open>The loop of \<open>_set_cursor_position\<close>: \<open>Some\<close> is the location set before the early
  \<open>return\<close>, \<open>None\<close> the end of the loop.\<close>

fun cursor_loop :: "string list \<Rightarrow> int \<Rightarrow> nat \<Rightarrow> int \<Rightarrow> (int \<times> int) option" where
  "cursor_loop [] pos row current_pos = None"
| "cursor_loop (line # rest) pos row current_pos =
     (if current_pos + int (length line) \<ge> pos then Some (int row, pos - current_pos)
      else cursor_loop rest pos (Suc row) (current_pos + int (length line) + 1))"

definition set_cursor_position :: "editor \<Rightarrow> int \<Rightarrow> editor" where
  "set_cursor_position ed pos =
     (let lines = py_split NL (buffer ed)
      in case cursor_loop lines pos 0 0 of
           Some loc \<Rightarrow> ed\<lparr>cursor_location := loc\<rparr>
         | None \<Rightarrow>
             (if lines \<noteq> []
              then ed\<lparr>cursor_location := (int (length lines) - 1, int (length (last lines)))\<rparr>
              else ed))"

section \<open>Notions used to state the properties\<close>

text \<open>
  The first four restate values the code computes: the wrapper each method passes to
  \<open>_wrap\<close>, its \<open>search_text\<close> and \<open>search_pos\<close>, and further down the
  \<open>target_line\<close> of the line-walking loop. The others say, in the words of the
  specification and without the code's loops and slices, what a line start, the line of an
  offset and a rewritten line are; the theorems relate the code to them.
\<close>

text \<open>The text of each delimiter of \<open>wrapToggle\<close>.\<close>

fun delimiter_text :: "delimiter \<Rightarrow> string" where
  "delimiter_text Bold = ''**''"
| "delimiter_text Italic = ''*''"
| "delimiter_text Code = ''`''"

text \<open>The search window of \<open>_wrap\<close> around an offset, and the offset in the coordinates
  of the window.\<close>

definition window :: "string \<Rightarrow> int \<Rightarrow> string" where
  "window text pos = slice text (max 0 (pos - 20)) (min (int (length text)) (pos + 20))"

definition window_pos :: "int \<Rightarrow> int" where
  "window_pos pos = pos - max 0 (pos - 20)"

text \<open>No pair of consecutive occurrences (0 with 1, 2 with 3, ...) has the offset in the
  closed span from the end of its first occurrence to the start of its second.\<close>

definition no_enclosing_pair :: "(nat \<times> nat) list \<Rightarrow> int \<Rightarrow> bool" where
  "no_enclosing_pair ms sp =
     (\<forall>k. 2 * k + 1 < length ms \<longrightarrow>
        \<not> (int (snd (ms ! (2 * k))) \<le> sp \<and> sp \<le> int (fst (ms ! (2 * k + 1)))))"

text \<open>The offset at which line \<open>t\<close> starts: every line before it counts its length and
  one newline.\<close>

definition line_offset :: "string list \<Rightarrow> nat \<Rightarrow> int" where
  "line_offset lines t = (\<Sum>l\<leftarrow>take t lines. int (length l) + 1)"

text \<open>Line \<open>t\<close> contains the offset: the offset lies between the start of the line and
  its end-of-line position, both included.\<close>

definition contains_offset :: "string list \<Rightarrow> nat \<Rightarrow> int \<Rightarrow> bool" where
  "contains_offset lines t pos =
     (t < length lines \<and> line_offset lines t \<le> pos
      \<and> pos \<le> line_offset lines t + int (length (lines ! t)))"

text \<open>The value of \<open>target_line\<close> after the loop of \<open>heading\<close> and \<open>listItem\<close>.\<close>

definition target_index :: "string list \<Rightarrow> int \<Rightarrow> nat" where
  "target_index lines pos = fst (line_loop lines pos 0 (0, 0))"

text \<open>A line without its heading marker: the longest leading run of at most six \<open>#\<close>,
  when there is one, and the whitespace after it are removed.\<close>

definition strip_marker :: "string \<Rightarrow> string" where
  "strip_marker line =
     (let k = min 6 (length (takeWhile (\<lambda>c. c = CHR ''#'') line))
      in if k = 0 then line else dropWhile isspace (drop k line))"

text \<open>The line with the marker of the given level: that many \<open>#\<close>, one space, and the
  line without its old marker.\<close>

definition set_marker :: "int \<Rightarrow> string \<Rightarrow> string" where
  "set_marker level line = replicate (nat level) CHR ''#'' @ '' '' @ strip_marker line"

text \<open>The line with its list marker toggled: \<open>- \<close> is removed when the line has it
  after its leading whitespace, and inserted after the leading whitespace otherwise.\<close>

definition toggle_marker :: "string \<Rightarrow> string" where
  "toggle_marker line =
     (let indent = takeWhile isspace line; body = dropWhile isspace line
      in if take 2 body = ''- '' then indent @ drop 2 body else indent @ ''- '' @ body)"

text \<open>The line has the list marker after its leading whitespace.\<close>

definition has_marker :: "string \<Rightarrow> bool" where
  "has_marker line = (take 2 (dropWhile isspace line) = ''- '')"

section \<open>Slices at offsets that are in range\<close>

lemma slice_bound_nonneg: "0 \<le> i \<Longrightarrow> slice_bound n i = min n (nat i)"
  by (simp add: slice_bound_def)

lemma slice_to_nonneg: "0 \<le> p \<Longrightarrow> slice_to xs p = take (nat p) xs"
  by (simp add: slice_to_def slice_bound_nonneg min_def)

lemma slice_from_nonneg: "0 \<le> p \<Longrightarrow> slice_from xs p = drop (nat p) xs"
  by (simp add: slice_from_def slice_bound_nonneg min_def)

lemma slice_nonneg:
  assumes "0 \<le> lo" "0 \<le> hi"
  shows "slice xs lo hi = take (nat hi - nat lo) (drop (nat lo) xs)"
proof (cases "nat lo < length xs")
  case True
  then show ?thesis using assms
    by (simp add: slice_def slice_bound_nonneg Let_def min_def)
next
  case False
  then show ?thesis using assms
    by (simp add: slice_def slice_bound_nonneg Let_def)
qed

section \<open>Delimiter toggle: insertion\<close>

lemma wrapToggle_wrap: "wrapToggle text pos d = wrap text pos (delimiter_text d)"
  by (cases d) (simp_all add: bold_def italic_def inlineCode_def)

lemma enclosing_pair_None:
  "no_enclosing_pair ms sp \<Longrightarrow> enclosing_pair ms sp = None"
proof (induction ms sp rule: enclosing_pair.induct)
  case (1 s e rest sp)
  from "1.prems" have h0: "\<not> (int (snd s) \<le> sp \<and> sp \<le> int (fst e))"
    unfolding no_enclosing_pair_def by (elim allE [of _ 0]) simp
  have "no_enclosing_pair rest sp"
    unfolding no_enclosing_pair_def
  proof (intro allI impI)
    fix k assume "2 * k + 1 < length rest"
    with "1.prems" show "\<not> (int (snd (rest ! (2 * k))) \<le> sp \<and> sp \<le> int (fst (rest ! (2 * k + 1))))"
      unfolding no_enclosing_pair_def by (elim allE [of _ "Suc k"]) simp
  qed
  with 1 h0 show ?case by simp
qed simp_all

text \<open>
  Claim C5. When the offset is in range and no pair of consecutive occurrences of the
  delimiter in the window encloses it, \<open>wrapToggle\<close> inserts two copies of the delimiter
  at the offset and returns the offset moved by the length of one copy. The witness is
  the scenario of the specification: \<open>the quick brown fox\<close>, offset 9, bold.
\<close>

theorem wrapToggle_inserts_empty_span:
  assumes "0 \<le> pos" "pos \<le> int (length text)"
    and "no_enclosing_pair (finditer (delimiter_text d) (window text pos) 0) (window_pos pos)"
  shows "wrapToggle text pos d =
           (take (nat pos) text @ delimiter_text d @ delimiter_text d @ drop (nat pos) text,
            pos + int (length (delimiter_text d)))"
  using assms(1) enclosing_pair_None [OF assms(3)]
  by (simp add: wrapToggle_wrap wrap_def window_def window_pos_def Let_def
      slice_to_nonneg slice_from_nonneg)

theorem wrapToggle_inserts_empty_span_witness:
  "wrapToggle ''the quick brown fox'' 9 Bold = (''the quick**** brown fox'', 11)"
proof -
  have w: "window ''the quick brown fox'' 9 = ''the quick brown fox''"
    by (simp add: window_def slice_def slice_bound_def)
  have f: "finditer ''**'' ''the quick brown fox'' 0 = []"
    by code_simp
  have "no_enclosing_pair
          (finditer (delimiter_text Bold) (window ''the quick brown fox'' 9) 0) (window_pos 9)"
    by (simp add: w f no_enclosing_pair_def)
  from wrapToggle_inserts_empty_span [OF _ _ this] show ?thesis by simp
qed

section \<open>Code block insertion\<close>

text \<open>
  Claim C6. For an offset in range, \<open>codeBlock\<close> raises nothing; at offset 0 or after a
  newline it inserts the fence, a blank line, the fence and a newline at the offset and
  returns the offset plus 4; elsewhere it inserts a newline before them and returns the
  offset plus 5. The witness is the empty text at offset 0.
\<close>

theorem codeBlock_inserts_fence:
  assumes "0 \<le> pos" "pos \<le> int (length text)"
  shows "codeBlock text pos =
           Inr (if pos = 0 \<or> text ! nat (pos - 1) = CHR ''\<newline>''
                then (take (nat pos) text @ ''```\<newline>\<newline>```\<newline>'' @ drop (nat pos) text,
                      pos + 4)
                else (take (nat pos) text @ ''\<newline>```\<newline>\<newline>```\<newline>'' @ drop (nat pos) text,
                      pos + 5))"
  using assms
  by (auto simp: codeBlock_def Let_def getitem_def NL_def slice_to_nonneg slice_from_nonneg)

theorem codeBlock_inserts_fence_witness:
  "codeBlock '''' 0 = Inr (''```\<newline>\<newline>```\<newline>'', 4)"
  using codeBlock_inserts_fence [of 0 "''''"] by simp

section \<open>Lines, offsets and the line-walking loop\<close>

lemma py_split_nonempty: "py_split sep s \<noteq> []"
  by (induction s) (auto split: list.splits)

lemma py_join_Cons: "ls \<noteq> [] \<Longrightarrow> py_join sep (l # ls) = l @ sep # py_join sep ls"
  by (cases ls) simp_all

lemma py_join_split: "py_join sep (py_split sep s) = s"
proof (induction s)
  case Nil
  show ?case by simp
next
  case (Cons c cs)
  show ?case
  proof (cases "c = sep")
    case True
    with Cons show ?thesis by (simp add: py_join_Cons py_split_nonempty)
  next
    case False
    obtain l ls where sp: "py_split sep cs = l # ls"
      using py_split_nonempty [of sep cs] by (cases "py_split sep cs") auto
    with Cons False show ?thesis by (cases ls) auto
  qed
qed

lemma py_split_no_sep: "l \<in> set (py_split sep s) \<Longrightarrow> sep \<notin> set l"
  by (induction s arbitrary: l) (auto split: if_splits list.splits)

lemma py_split_line: "sep \<notin> set l \<Longrightarrow> py_split sep l = [l]"
  by (induction l) auto

lemma py_split_append_sep:
  "sep \<notin> set l \<Longrightarrow> py_split sep (l @ sep # s) = l # py_split sep s"
  by (induction l) auto

lemma py_split_join:
  "ls \<noteq> [] \<Longrightarrow> \<forall>l \<in> set ls. sep \<notin> set l \<Longrightarrow> py_split sep (py_join sep ls) = ls"
proof (induction ls)
  case Nil
  then show ?case by simp
next
  case (Cons l ls)
  show ?case
  proof (cases ls)
    case Nil
    with Cons.prems show ?thesis by (simp add: py_split_line)
  next
    case (Cons a as)
    with Cons.IH Cons.prems show ?thesis
      by (simp add: py_split_append_sep)
  qed
qed

lemma line_offset_0: "line_offset ls 0 = 0"
  by (simp add: line_offset_def)

lemma line_offset_Cons_Suc:
  "line_offset (l # ls) (Suc k) = int (length l) + 1 + line_offset ls k"
  by (simp add: line_offset_def)

lemma line_offset_Suc:
  "k < length ls \<Longrightarrow> line_offset ls (Suc k) = line_offset ls k + int (length (ls ! k)) + 1"
  by (simp add: line_offset_def take_Suc_conv_app_nth)

lemma line_offset_mono: "j \<le> k \<Longrightarrow> line_offset ls j \<le> line_offset ls k"
proof (induction ls arbitrary: j k)
  case Nil
  then show ?case by (simp add: line_offset_def)
next
  case (Cons l ls)
  show ?case
  proof (cases j)
    case 0
    have "0 \<le> line_offset (l # ls) k"
      by (auto simp: line_offset_def intro!: sum_list_nonneg)
    with 0 show ?thesis by (simp add: line_offset_0)
  next
    case (Suc j')
    with Cons.prems obtain k' where "k = Suc k'" "j' \<le> k'" by (cases k) auto
    with Suc Cons.IH [of j' k'] show ?thesis by (simp add: line_offset_Cons_Suc)
  qed
qed

lemma length_py_join:
  "ls \<noteq> [] \<Longrightarrow> int (length (py_join sep ls)) = line_offset ls (length ls) - 1"
proof (induction ls)
  case Nil
  then show ?case by simp
next
  case (Cons l ls)
  then show ?case
    by (cases ls) (simp_all add: line_offset_def)
qed

lemma length_text_line_offset:
  "int (length text) = line_offset (py_split sep text) (length (py_split sep text)) - 1"
  using length_py_join [OF py_split_nonempty, of sep sep "text"] by (simp add: py_join_split)

text \<open>The loop, on the lines that remain: it stops at the first line whose end reaches
  the offset.\<close>

lemma line_loop_in_range:
  assumes "ls \<noteq> []" "cp \<le> pos" "pos \<le> cp + line_offset ls (length ls) - 1"
  shows "\<exists>k < length ls. line_loop ls pos i (t0, cp) = (i + k, cp + line_offset ls k)
           \<and> cp + line_offset ls k \<le> pos
           \<and> pos \<le> cp + line_offset ls k + int (length (ls ! k))"
  using assms
proof (induction ls arbitrary: i cp)
  case Nil
  then show ?case by simp
next
  case (Cons l ls)
  show ?case
  proof (cases "pos \<le> cp + int (length l)")
    case True
    with Cons.prems show ?thesis
      by (intro exI [of _ 0]) (simp add: line_offset_0)
  next
    case False
    with Cons.prems have ne: "ls \<noteq> []"
      by (cases ls) (auto simp: line_offset_def)
    from False Cons.prems
    have "\<exists>k < length ls. line_loop ls pos (Suc i) (t0, cp + int (length l) + 1)
              = (Suc i + k, cp + int (length l) + 1 + line_offset ls k)
           \<and> cp + int (length l) + 1 + line_offset ls k \<le> pos
           \<and> pos \<le> cp + int (length l) + 1 + line_offset ls k + int (length (ls ! k))"
      by (intro Cons.IH [OF ne]) (simp_all add: line_offset_Cons_Suc)
    then obtain k where k: "k < length ls"
      "line_loop ls pos (Suc i) (t0, cp + int (length l) + 1)
              = (Suc i + k, cp + int (length l) + 1 + line_offset ls k)"
      "cp + int (length l) + 1 + line_offset ls k \<le> pos"
      "pos \<le> cp + int (length l) + 1 + line_offset ls k + int (length (ls ! k))"
      by blast
    with False show ?thesis
      by (intro exI [of _ "Suc k"]) (simp add: line_offset_Cons_Suc)
  qed
qed

lemma line_loop_index:
  "line_loop ls pos i (t0, cp) = (t, cp') \<Longrightarrow> t = t0 \<or> (i \<le> t \<and> t < i + length ls)"
proof (induction ls arbitrary: i cp)
  case Nil
  then show ?case by simp
next
  case (Cons l ls)
  then show ?case by (fastforce split: if_splits)
qed

lemma target_index_less: "target_index (py_split sep text) pos < length (py_split sep text)"
proof -
  obtain t cp where r: "line_loop (py_split sep text) pos 0 (0, 0) = (t, cp)"
    by (cases "line_loop (py_split sep text) pos 0 (0, 0)")
  from line_loop_index [OF r] py_split_nonempty [of sep "text"] r
  show ?thesis by (auto simp: target_index_def)
qed

lemma target_line_in_range:
  assumes "0 \<le> pos" "pos \<le> int (length text)"
  shows "\<exists>t. line_loop (py_split sep text) pos 0 (0, 0) = (t, line_offset (py_split sep text) t)
           \<and> contains_offset (py_split sep text) t pos"
  using line_loop_in_range [OF py_split_nonempty, of 0 pos sep _ 0 0] assms
  by (auto simp: contains_offset_def length_text_line_offset [of _ sep])

section \<open>Invalid heading levels\<close>

text \<open>
  Claim C9. For every document and every offset, \<open>heading\<close> with a level outside 1..6
  returns the text and the offset it was given, and raises nothing.
\<close>

theorem heading_invalid_level_noop:
  "level < 1 \<or> 6 < level \<Longrightarrow> heading text pos level = Inr (text, pos)"
  by (auto simp: heading_def)

theorem heading_invalid_level_noop_witness:
  "((7::int) < 1 \<or> 6 < (7::int)) \<and> heading ''# a'' 2 7 = Inr (''# a'', 2)"
  using heading_invalid_level_noop [of 7 "''# a''" 2] by simp

section \<open>List item toggle\<close>

lemma lstrip_dropWhile: "lstrip s = dropWhile isspace s"
  by (induction s) auto

lemma indent_takeWhile: "take (length s - length (dropWhile P s)) s = takeWhile P s"
proof -
  have "length s = length (takeWhile P s) + length (dropWhile P s)"
    by (metis length_append takeWhile_dropWhile_id)
  then have "length s - length (dropWhile P s) = length (takeWhile P s)"
    by simp
  then show ?thesis
    by (metis append_eq_conv_conj takeWhile_dropWhile_id)
qed

lemma slice_to_indent:
  "slice_to line (int (length line) - int (length (dropWhile P line))) = takeWhile P line"
proof -
  have "length (dropWhile P line) \<le> length line"
    by (simp add: length_dropWhile_le)
  then have "nat (int (length line) - int (length (dropWhile P line)))
               = length line - length (dropWhile P line)"
    by simp
  with \<open>length (dropWhile P line) \<le> length line\<close> show ?thesis
    by (simp add: slice_to_nonneg indent_takeWhile)
qed

lemma getitem_target:
  "getitem (py_split sep text) (int (target_index (py_split sep text) pos))
     = Inr (py_split sep text ! target_index (py_split sep text) pos)"
  using target_index_less [of sep "text" pos] by (simp add: getitem_def)

lemma listItem_eq:
  "listItem text pos =
     Inr (py_join NL ((py_split NL text)
            [target_index (py_split NL text) pos :=
               toggle_marker (py_split NL text ! target_index (py_split NL text) pos)]),
          if has_marker (py_split NL text ! target_index (py_split NL text) pos)
          then pos - 2 else pos + 2)"
proof -
  obtain t cp where r: "line_loop (py_split NL text) pos 0 (0, 0) = (t, cp)"
    by (cases "line_loop (py_split NL text) pos 0 (0, 0)")
  then have t: "target_index (py_split NL text) pos = t"
    by (simp add: target_index_def)
  from getitem_target [of NL "text" pos] t
  have g: "getitem (py_split NL text) (int t) = Inr (py_split NL text ! t)"
    by simp
  show ?thesis
    unfolding t
    by (simp add: listItem_def r g Let_def lstrip_dropWhile slice_to_indent startswith_def
        slice_from_nonneg toggle_marker_def has_marker_def numeral_2_eq_2)
qed

text \<open>
  Claim C8. \<open>listItem\<close> raises nothing and rewrites one line, the one the loop selects,
  which for an offset in range is the line that contains the offset. When the line
  without its leading whitespace starts with \<open>- \<close>, these two characters are removed,
  the leading whitespace stays, and the offset returned is the offset minus 2; otherwise
  \<open>- \<close> is inserted right after the leading whitespace and the offset returned is the
  offset plus 2. The witness toggles the line of two spaces and \<open>hello\<close> twice.
\<close>

theorem listItem_toggles_marker:
  "listItem text pos =
     (let lines = py_split NL text; t = target_index lines pos; line = lines ! t;
          indent = takeWhile isspace line; body = dropWhile isspace line
      in if take 2 body = ''- ''
         then Inr (py_join NL (lines[t := indent @ drop 2 body]), pos - 2)
         else Inr (py_join NL (lines[t := indent @ ''- '' @ body]), pos + 2))
   \<and> (0 \<le> pos \<and> pos \<le> int (length text)
        \<longrightarrow> contains_offset (py_split NL text) (target_index (py_split NL text) pos) pos)"
proof
  show "listItem text pos =
     (let lines = py_split NL text; t = target_index lines pos; line = lines ! t;
          indent = takeWhile isspace line; body = dropWhile isspace line
      in if take 2 body = ''- ''
         then Inr (py_join NL (lines[t := indent @ drop 2 body]), pos - 2)
         else Inr (py_join NL (lines[t := indent @ ''- '' @ body]), pos + 2))"
    by (simp add: listItem_eq Let_def toggle_marker_def has_marker_def)
next
  show "0 \<le> pos \<and> pos \<le> int (length text)
        \<longrightarrow> contains_offset (py_split NL text) (target_index (py_split NL text) pos) pos"
    using target_line_in_range [of pos "text" NL] by (auto simp: target_index_def)
qed

theorem listItem_toggles_marker_witness:
  "listItem ''  hello'' 0 = Inr (''  - hello'', 2)
   \<and> listItem ''  - hello'' 2 = Inr (''  hello'', 0)
   \<and> contains_offset [''  hello''] 0 0"
proof -
  have s1: "py_split NL ''  hello'' = [''  hello'']"
    by (simp add: NL_def)
  have s2: "py_split NL ''  - hello'' = [''  - hello'']"
    by (simp add: NL_def)
  have t1: "target_index [''  hello''] 0 = 0" "target_index [''  - hello''] 2 = 0"
    by (simp_all add: target_index_def)
  have sp: "isspace CHR '' ''" "\<not> isspace CHR ''h''" "\<not> isspace CHR ''-''"
    by (simp_all add: isspace_def)
  note a = listItem_toggles_marker [of "''  hello''" 0, unfolded s1 t1 Let_def]
  note b = listItem_toggles_marker [of "''  - hello''" 2, unfolded s2 t1 Let_def]
  from a b show ?thesis
    by (simp add: sp)
qed

section \<open>Heading\<close>

lemma hash_run_takeWhile:
  "hash_run n s = min n (length (takeWhile (\<lambda>c. c = CHR ''#'') s))"
  by (induction n s rule: hash_run.induct) auto

lemma space_run_takeWhile: "space_run s = length (takeWhile isspace s)"
  by (induction s) auto

lemma drop_space_run: "drop (space_run s) s = dropWhile isspace s"
  by (induction s) auto

lemma heading_new_line:
  "(case heading_match line of
      Some e \<Rightarrow> replicate (nat level) CHR ''#'' @ '' '' @ slice_from line (int e)
    | None \<Rightarrow> replicate (nat level) CHR ''#'' @ '' '' @ line) = set_marker level line"
proof (cases "hash_run 6 line = 0")
  case True
  then show ?thesis
    by (simp add: heading_match_def set_marker_def strip_marker_def flip: hash_run_takeWhile)
next
  case False
  define k where "k = hash_run 6 line"
  have "slice_from line (int (k + space_run (drop k line))) = drop (k + space_run (drop k line)) line"
    by (simp only: slice_from_nonneg of_nat_0_le_iff nat_int)
  also have "\<dots> = drop (space_run (drop k line)) (drop k line)"
    by (simp add: add.commute)
  also have "\<dots> = dropWhile isspace (drop k line)"
    by (rule drop_space_run)
  finally have "slice_from line (int (k + space_run (drop k line))) = dropWhile isspace (drop k line)" .
  with False show ?thesis
    by (simp add: heading_match_def set_marker_def strip_marker_def k_def Let_def
        flip: hash_run_takeWhile)
qed

lemma heading_eq:
  assumes "1 \<le> level" "level \<le> 6"
  shows "heading text pos level =
     Inr (py_join NL ((py_split NL text)
            [target_index (py_split NL text) pos :=
               set_marker level (py_split NL text ! target_index (py_split NL text) pos)]),
          snd (line_loop (py_split NL text) pos 0 (0, 0))
          + min (pos - snd (line_loop (py_split NL text) pos 0 (0, 0))
                 + (int (length (set_marker level
                       (py_split NL text ! target_index (py_split NL text) pos)))
                    - int (length (py_split NL text ! target_index (py_split NL text) pos))))
                (int (length (set_marker level
                       (py_split NL text ! target_index (py_split NL text) pos)))))"
proof -
  obtain t cp where r: "line_loop (py_split NL text) pos 0 (0, 0) = (t, cp)"
    by (cases "line_loop (py_split NL text) pos 0 (0, 0)")
  then have t: "target_index (py_split NL text) pos = t"
    by (simp add: target_index_def)
  from getitem_target [of NL "text" pos] t
  have g: "getitem (py_split NL text) (int t) = Inr (py_split NL text ! t)"
    by simp
  show ?thesis
    unfolding t using assms
    by (simp add: heading_def r g Let_def heading_new_line)
qed

lemma set_marker_h5:
  "set_marker 3 (''##### '' @ r) = ''### '' @ dropWhile isspace r"
  by (simp add: set_marker_def strip_marker_def isspace_def numeral_3_eq_3)

text \<open>
  Claim C7. For a level from 1 to 6, \<open>heading\<close> raises nothing and rewrites one line,
  the one the loop selects, which for an offset in range is the line that contains the
  offset: the leading run of \<open>#\<close> (at most six of them, as the pattern \<open>#{1,6}\<close>
  matches) and the whitespace after it are removed, then \<open>level\<close> characters \<open>#\<close>
  and one space are put in front, and the rest of the line is kept. At level 3, a line
  that starts with five \<open>#\<close> and a space becomes three \<open>#\<close>, one space and the rest
  without its leading whitespace.
\<close>

theorem heading_rewrites_marker:
  assumes "1 \<le> level" "level \<le> 6"
  shows "(\<exists>new_pos. heading text pos level =
            (let lines = py_split NL text; t = target_index lines pos; line = lines ! t;
                 k = min 6 (length (takeWhile (\<lambda>c. c = CHR ''#'') line));
                 rest = (if k = 0 then line else dropWhile isspace (drop k line))
             in Inr (py_join NL (lines[t := replicate (nat level) CHR ''#'' @ '' '' @ rest]),
                     new_pos)))
       \<and> (0 \<le> pos \<and> pos \<le> int (length text)
            \<longrightarrow> contains_offset (py_split NL text) (target_index (py_split NL text) pos) pos)
       \<and> (\<forall>r. level = 3
                \<and> py_split NL text ! target_index (py_split NL text) pos = ''##### '' @ r
            \<longrightarrow> (\<exists>new_pos. heading text pos level =
                   Inr (py_join NL ((py_split NL text)
                          [target_index (py_split NL text) pos := ''### '' @ dropWhile isspace r]),
                        new_pos)))"
proof (intro conjI)
  show "\<exists>new_pos. heading text pos level =
            (let lines = py_split NL text; t = target_index lines pos; line = lines ! t;
                 k = min 6 (length (takeWhile (\<lambda>c. c = CHR ''#'') line));
                 rest = (if k = 0 then line else dropWhile isspace (drop k line))
             in Inr (py_join NL (lines[t := replicate (nat level) CHR ''#'' @ '' '' @ rest]),
                     new_pos))"
    by (simp add: heading_eq [OF assms] Let_def set_marker_def strip_marker_def)
next
  show "0 \<le> pos \<and> pos \<le> int (length text)
        \<longrightarrow> contains_offset (py_split NL text) (target_index (py_split NL text) pos) pos"
    using target_line_in_range [of pos "text" NL] by (auto simp: target_index_def)
next
  show "\<forall>r. level = 3
                \<and> py_split NL text ! target_index (py_split NL text) pos = ''##### '' @ r
            \<longrightarrow> (\<exists>new_pos. heading text pos level =
                   Inr (py_join NL ((py_split NL text)
                          [target_index (py_split NL text) pos := ''### '' @ dropWhile isspace r]),
                        new_pos))"
  proof (intro allI impI)
    fix r
    assume h: "level = 3
       \<and> py_split NL text ! target_index (py_split NL text) pos = ''##### '' @ r"
    from h set_marker_h5 [of r]
    have "set_marker level (py_split NL text ! target_index (py_split NL text) pos)
            = ''### '' @ dropWhile isspace r"
      by simp
    then show "\<exists>new_pos. heading text pos level =
                   Inr (py_join NL ((py_split NL text)
                          [target_index (py_split NL text) pos := ''### '' @ dropWhile isspace r]),
                        new_pos)"
      by (simp add: heading_eq [OF assms])
  qed
qed

theorem heading_rewrites_marker_witness:
  "(1::int) \<le> 3 \<and> (3::int) \<le> 6
   \<and> (\<exists>new_pos. heading ''##### title'' 3 3 = Inr (''### title'', new_pos))
   \<and> contains_offset [''##### title''] 0 3"
proof -
  have s1: "py_split NL ''##### title'' = [''##### title'']"
    by (simp add: NL_def)
  have t1: "target_index [''##### title''] 3 = 0"
    by (simp add: target_index_def)
  have sp: "isspace CHR '' ''" "\<not> isspace CHR ''t''"
    by (simp_all add: isspace_def)
  note a = heading_rewrites_marker [of 3 "''##### title''" 3, unfolded s1 t1 Let_def]
  from a show ?thesis
    by (simp add: sp)
qed

section \<open>The lines that an edit leaves alone\<close>

lemma strip_marker_subset: "set (strip_marker line) \<subseteq> set line"
proof -
  have "set (dropWhile isspace (drop k line)) \<subseteq> set line" for k
    by (meson set_dropWhileD set_drop_subset subsetD subsetI)
  then show ?thesis
    by (simp add: strip_marker_def Let_def)
qed

lemma set_marker_no_newline: "NL \<notin> set line \<Longrightarrow> NL \<notin> set (set_marker level line)"
  using strip_marker_subset [of line] by (auto simp: set_marker_def NL_def)

lemma toggle_marker_no_newline: "NL \<notin> set line \<Longrightarrow> NL \<notin> set (toggle_marker line)"
proof -
  assume n: "NL \<notin> set line"
  have a: "set (takeWhile isspace line) \<subseteq> set line"
    by (auto dest: set_takeWhileD)
  have b: "set (dropWhile isspace line) \<subseteq> set line"
    by (auto dest: set_dropWhileD)
  have c: "set (drop 2 (dropWhile isspace line)) \<subseteq> set line"
    using b set_drop_subset [of 2 "dropWhile isspace line"] by blast
  from n a b c show ?thesis
    by (auto simp: toggle_marker_def Let_def NL_def)
qed

lemma py_split_join_update:
  assumes "t < length (py_split sep s)" "sep \<notin> set x"
  shows "py_split sep (py_join sep ((py_split sep s)[t := x])) = (py_split sep s)[t := x]"
proof (rule py_split_join)
  show "(py_split sep s)[t := x] \<noteq> []"
    using py_split_nonempty [of sep s] by simp
  show "\<forall>l \<in> set ((py_split sep s)[t := x]). sep \<notin> set l"
  proof
    fix l assume "l \<in> set ((py_split sep s)[t := x])"
    then have "l = x \<or> l \<in> set (py_split sep s)"
      using set_update_subset_insert [of "py_split sep s" t x] by auto
    with assms(2) show "sep \<notin> set l"
      by (auto dest: py_split_no_sep)
  qed
qed

lemma target_line_no_newline:
  "NL \<notin> set (py_split NL text ! target_index (py_split NL text) pos)"
  using target_index_less [of NL "text" pos] py_split_no_sep [of _ NL "text"] nth_mem
  by blast

text \<open>
  Claim C10. For an offset in range and a level from 1 to 6, \<open>heading\<close> and
  \<open>listItem\<close> change at most the line that contains the offset: the new document
  splits into as many lines as the old one, and every other line is the same.
\<close>

theorem line_edits_frame:
  assumes "0 \<le> pos" "pos \<le> int (length text)" "1 \<le> level" "level \<le> 6"
  shows "\<exists>t. contains_offset (py_split NL text) t pos
           \<and> (\<exists>new_text new_pos. heading text pos level = Inr (new_text, new_pos)
                 \<and> length (py_split NL new_text) = length (py_split NL text)
                 \<and> (\<forall>i < length (py_split NL text).
                       i \<noteq> t \<longrightarrow> py_split NL new_text ! i = py_split NL text ! i))
           \<and> (\<exists>new_text new_pos. listItem text pos = Inr (new_text, new_pos)
                 \<and> length (py_split NL new_text) = length (py_split NL text)
                 \<and> (\<forall>i < length (py_split NL text).
                       i \<noteq> t \<longrightarrow> py_split NL new_text ! i = py_split NL text ! i))"
proof -
  define lines where "lines = py_split NL text"
  define t where "t = target_index lines pos"
  have tl: "t < length lines"
    unfolding t_def lines_def by (rule target_index_less)
  have c: "contains_offset lines t pos"
    using target_line_in_range [OF assms(1,2), of NL]
    by (auto simp: t_def lines_def target_index_def)
  have nl: "NL \<notin> set (lines ! t)"
    unfolding t_def lines_def by (rule target_line_no_newline)
  have upd: "py_split NL (py_join NL (lines[t := x])) = lines[t := x]" if "NL \<notin> set x" for x
    using py_split_join_update [of t NL "text" x] tl that by (simp add: lines_def)
  have h: "\<exists>new_text new_pos. heading text pos level = Inr (new_text, new_pos)
                 \<and> length (py_split NL new_text) = length lines
                 \<and> (\<forall>i < length lines. i \<noteq> t \<longrightarrow> py_split NL new_text ! i = lines ! i)"
    using heading_eq [OF assms(3,4), of "text" pos] upd [OF set_marker_no_newline [OF nl, of level]]
    by (simp add: lines_def [symmetric] t_def [symmetric])
  have l: "\<exists>new_text new_pos. listItem text pos = Inr (new_text, new_pos)
                 \<and> length (py_split NL new_text) = length lines
                 \<and> (\<forall>i < length lines. i \<noteq> t \<longrightarrow> py_split NL new_text ! i = lines ! i)"
    using listItem_eq [of "text" pos] upd [OF toggle_marker_no_newline [OF nl]]
    by (simp add: lines_def [symmetric] t_def [symmetric])
  from c h l show ?thesis
    unfolding lines_def by blast
qed

theorem line_edits_frame_witness:
  "\<exists>t. contains_offset [''a'', ''- b'', ''c''] t 3
     \<and> (\<exists>new_text new_pos. heading ''a\<newline>- b\<newline>c'' 3 2 = Inr (new_text, new_pos)
           \<and> length (py_split NL new_text) = length [''a'', ''- b'', ''c'']
           \<and> (\<forall>i < length [''a'', ''- b'', ''c'']. i \<noteq> t \<longrightarrow> py_split NL new_text ! i = [''a'', ''- b'', ''c''] ! i))
     \<and> (\<exists>new_text new_pos. listItem ''a\<newline>- b\<newline>c'' 3 = Inr (new_text, new_pos)
           \<and> length (py_split NL new_text) = length [''a'', ''- b'', ''c'']
           \<and> (\<forall>i < length [''a'', ''- b'', ''c'']. i \<noteq> t \<longrightarrow> py_split NL new_text ! i = [''a'', ''- b'', ''c''] ! i))"
proof -
  have s1: "py_split NL ''a\<newline>- b\<newline>c'' = [''a'', ''- b'', ''c'']"
    by (simp add: NL_def)
  note a = line_edits_frame [of 3 "''a\<newline>- b\<newline>c''" 2, unfolded s1]
  from a show ?thesis
    by simp
qed

section \<open>Offset and position conversion\<close>

lemma rows_before_upt:
  "b \<le> length ls \<Longrightarrow> a \<le> b \<Longrightarrow>
     rows_before ls [a ..< b] p = p + (line_offset ls b - line_offset ls a)"
proof (induction "b - a" arbitrary: a p)
  case 0
  then show ?case by simp
next
  case (Suc n)
  then have ab: "a < b" and n: "n = b - Suc a" by simp_all
  from ab Suc.prems have al: "a < length ls" by simp
  from ab have "[a ..< b] = a # [Suc a ..< b]"
    by (simp add: upt_conv_Cons)
  with Suc.hyps(1) [OF n Suc.prems(1), of "p + int (length (ls ! a)) + 1"] ab al
  show ?case
    by (simp add: line_offset_Suc)
qed

lemma line_offset_nonneg: "0 \<le> line_offset ls k"
  using line_offset_mono [of 0 k ls] by (simp add: line_offset_0)

lemma cursor_loop_found:
  "k < length ls \<Longrightarrow> cp + line_offset ls k \<le> pos
   \<Longrightarrow> pos \<le> cp + line_offset ls k + int (length (ls ! k))
   \<Longrightarrow> cursor_loop ls pos i cp = Some (int (i + k), pos - (cp + line_offset ls k))"
proof (induction ls arbitrary: k i cp)
  case Nil
  then show ?case by simp
next
  case (Cons l ls)
  show ?case
  proof (cases k)
    case 0
    with Cons.prems show ?thesis by (simp add: line_offset_0)
  next
    case (Suc k')
    with Cons.prems line_offset_nonneg [of ls k']
    have "\<not> pos \<le> cp + int (length l)"
      by (simp add: line_offset_Cons_Suc)
    moreover from Suc Cons.prems
    have "cursor_loop ls pos (Suc i) (cp + int (length l) + 1)
            = Some (int (Suc i + k'), pos - (cp + int (length l) + 1 + line_offset ls k'))"
      by (intro Cons.IH) (simp_all add: line_offset_Cons_Suc)
    ultimately show ?thesis
      using Suc by (simp add: line_offset_Cons_Suc)
  qed
qed

text \<open>
  Claim C2. When the cursor is at \<open>(row, col)\<close>, with \<open>row\<close> the index of a line of
  the document and \<open>col\<close> not negative, \<open>_get_cursor_position\<close> returns an offset, and
  \<open>_set_cursor_position\<close> at this offset puts the cursor at \<open>row\<close> and at the column
  \<open>col\<close> clamped to the length of the line.
\<close>

theorem position_roundtrip:
  assumes "cursor_location ed = (row, col)"
    and "0 \<le> row" "row < int (length (py_split NL (buffer ed)))" "0 \<le> col"
  shows "\<exists>pos. get_cursor_position ed = Inr pos
           \<and> cursor_location (set_cursor_position ed pos)
               = (row, min col (int (length (py_split NL (buffer ed) ! nat row))))"
proof -
  define lines where "lines = py_split NL (buffer ed)"
  define k where "k = nat row"
  define c where "c = min col (int (length (lines ! k)))"
  from assms have kl: "k < length lines" and rk: "row = int k"
    by (simp_all add: k_def lines_def)
  have g: "get_cursor_position ed = Inr (line_offset lines k + c)"
    using assms kl rows_before_upt [of k lines 0 0]
    by (simp add: get_cursor_position_def lines_def [symmetric] k_def [symmetric] getitem_def
        c_def line_offset_0)
  have c0: "0 \<le> c" "c \<le> int (length (lines ! k))"
    using assms(4) by (simp_all add: c_def)
  from cursor_loop_found [of k lines 0 "line_offset lines k + c" 0] kl c0
  have "cursor_loop lines (line_offset lines k + c) 0 0 = Some (int k, c)"
    by simp
  then have "cursor_location (set_cursor_position ed (line_offset lines k + c)) = (row, c)"
    by (simp add: set_cursor_position_def lines_def [symmetric] rk)
  with g show ?thesis
    by (simp add: c_def lines_def k_def)
qed

theorem position_roundtrip_witness:
  "get_cursor_position \<lparr>buffer = ''ab\<newline>cd'', cursor_location = (1, 5)\<rparr> = Inr 5
   \<and> cursor_location (set_cursor_position \<lparr>buffer = ''ab\<newline>cd'', cursor_location = (1, 5)\<rparr> 5)
       = (1, 2)"
proof -
  have s1: "py_split NL ''ab\<newline>cd'' = [''ab'', ''cd'']"
    by (simp add: NL_def)
  have g: "get_cursor_position \<lparr>buffer = ''ab\<newline>cd'', cursor_location = (1, 5)\<rparr> = Inr 5"
    by (simp add: get_cursor_position_def NL_def getitem_def)
  from position_roundtrip [of "\<lparr>buffer = ''ab\<newline>cd'', cursor_location = (1, 5)\<rparr>" 1 5] g
  show ?thesis
    by (simp add: NL_def)
qed

section \<open>Delimiter toggle: insertion and removal\<close>

lemma finditer_match:
  assumes "w \<noteq> []" "take (length w) (drop i s) = w"
  shows "finditer w s i = (i, i + length w) # finditer w s (i + length w)"
proof -
  from assms have "drop i s \<noteq> []" by auto
  then have "\<not> length s < i" by simp
  with assms show ?thesis
    by (subst finditer.simps) simp
qed

lemma finditer_miss:
  assumes "take (length w) (drop i s) \<noteq> w"
  shows "finditer w s i = finditer w s (Suc i)"
proof (cases "length s < i")
  case True
  then show ?thesis
    by (simp add: finditer.simps [of w s i] finditer.simps [of w s "Suc i"])
next
  case False
  with assms show ?thesis
    by (subst finditer.simps) simp
qed

lemma finditer_skip:
  "i \<le> j \<Longrightarrow> (\<forall>k. i \<le> k \<and> k < j \<longrightarrow> take (length w) (drop k s) \<noteq> w)
   \<Longrightarrow> finditer w s i = finditer w s j"
proof (induction "j - i" arbitrary: i)
  case 0
  then show ?case by simp
next
  case (Suc n)
  then have "finditer w s i = finditer w s (Suc i)"
    by (intro finditer_miss) simp
  also from Suc have "\<dots> = finditer w s j"
    by (intro Suc.hyps(1)) auto
  finally show ?case .
qed

lemma finditer_none:
  assumes "\<forall>k. i \<le> k \<longrightarrow> take (length w) (drop k s) \<noteq> w"
  shows "finditer w s i = []"
proof (cases "length s < i")
  case True
  then show ?thesis by (simp add: finditer.simps [of w s i])
next
  case False
  with assms have "finditer w s i = finditer w s (Suc (length s))"
    by (intro finditer_skip) auto
  then show ?thesis by (simp add: finditer.simps [of w s "Suc (length s)"])
qed

lemma finditer_Nil_no_occurrence:
  "finditer w s i = [] \<Longrightarrow> w \<noteq> [] \<Longrightarrow> i \<le> k \<Longrightarrow> take (length w) (drop k s) \<noteq> w"
proof (induction w s i rule: finditer.induct)
  case (1 w s i)
  show ?case
  proof (cases "length s < i")
    case True
    with "1.prems" show ?thesis by auto
  next
    case False
    with "1.prems"(1) have miss: "take (length w) (drop i s) \<noteq> w"
      by (subst (asm) finditer.simps) (auto split: if_splits)
    with False "1.prems"(1) have nxt: "finditer w s (i + 1) = []"
      by (subst (asm) finditer.simps) simp
    show ?thesis
    proof (cases "k = i")
      case True
      with miss show ?thesis by simp
    next
      case False
      with "1.prems" have "i + 1 \<le> k" by simp
      from "1.IH"(2) [OF \<open>\<not> length s < i\<close> miss nxt "1.prems"(2) this] show ?thesis .
    qed
  qed
qed

lemma window_eq:
  assumes "P \<le> length T"
  shows "window T (int P) = drop (P - 20) (take P T) @ take 20 (drop P T)"
proof -
  have l: "nat (max 0 (int P - 20)) = P - 20" by simp
  have r: "nat (min (int (length T)) (int P + 20)) = min (length T) (P + 20)" by simp
  have "slice T (max 0 (int P - 20)) (min (int (length T)) (int P + 20))
          = take (nat (min (int (length T)) (int P + 20)) - nat (max 0 (int P - 20)))
              (drop (nat (max 0 (int P - 20))) T)"
    by (rule slice_nonneg) simp_all
  then have "window T (int P) = take (min (length T) (P + 20) - (P - 20)) (drop (P - 20) T)"
    unfolding window_def l r .
  also have "drop (P - 20) T = drop (P - 20) (take P T) @ drop P T"
    by (metis append_take_drop_id diff_le_self drop_append drop_take length_take min.absorb2 assms
        diff_is_0_eq' drop0)
  finally show ?thesis using assms
    by (simp add: min_def)
qed


lemma window_after_insert:
  assumes "P \<le> length T" "length w \<le> 20"
  shows "window (take P T @ w @ w @ drop P T) (int (P + length w))
           = drop (P + length w - 20) (take P T) @ w @ w @ take (20 - length w) (drop P T)"
proof -
  let ?T' = "take P T @ w @ w @ drop P T"
  have len: "length (take P T) = P" using assms(1) by simp
  have "P + length w \<le> length ?T'" using assms(1) by simp
  then have "window ?T' (int (P + length w))
      = drop (P + length w - 20) (take (P + length w) ?T') @ take 20 (drop (P + length w) ?T')"
    by (rule window_eq)
  moreover have "take (P + length w) ?T' = take P T @ w"
    using len by simp
  moreover have "drop (P + length w) ?T' = w @ drop P T"
    using len by simp
  ultimately show ?thesis
    using assms len by simp
qed

lemma take_drop_take_mono:
  assumes "take (length w) (drop m (take c ys)) = w" "c \<le> c'"
  shows "take (length w) (drop m (take c' ys)) = w"
proof -
  have "length (take (length w) (drop m (take c ys))) = length w"
    using assms(1) by simp
  then have l: "length w \<le> c - m" "length w \<le> length ys - m"
    by (simp_all add: min_def split: if_splits)
  with assms(2) have l': "length w \<le> c' - m" by simp
  have "take (length w) (drop m (take c ys)) = take (length w) (drop m ys)"
    using l by (simp add: drop_take min_def)
  moreover have "take (length w) (drop m (take c' ys)) = take (length w) (drop m ys)"
    using l' by (simp add: drop_take min_def)
  ultimately show ?thesis using assms(1) by simp
qed

lemma matches_after_insert:
  assumes w: "w \<noteq> []" "length w \<le> 20" and P: "P \<le> length T"
    and H: "finditer w (window T (int P)) 0 = []"
    and straddle: "\<forall>j. j < P \<and> P < j + length w
                     \<longrightarrow> take (length w) (drop j (take P T @ w)) \<noteq> w"
  shows "finditer w (window (take P T @ w @ w @ drop P T) (int (P + length w))) 0
           = [(P - (P + length w - 20), P - (P + length w - 20) + length w),
              (P - (P + length w - 20) + length w, P - (P + length w - 20) + 2 * length w)]"
proof -
  define n where "n = length w"
  define X where "X = take P T"
  define Y where "Y = drop P T"
  define A where "A = drop (P + n - 20) X"
  define B where "B = take (20 - n) Y"
  define S where "S = A @ w @ w @ B"
  have lenX: "length X = P" using P by (simp add: X_def)
  have lenA: "length A = P - (P + n - 20)" by (simp add: A_def lenX)
  have S: "window (take P T @ w @ w @ drop P T) (int (P + length w)) = S"
    using window_after_insert [OF P w(2)] by (simp add: S_def A_def B_def X_def Y_def n_def)
  have W: "window T (int P) = drop (P - 20) X @ take 20 Y"
    using window_eq [OF P] by (simp add: X_def Y_def)
  have H': "take n (drop k (drop (P - 20) X @ take 20 Y)) \<noteq> w" for k
    using finditer_Nil_no_occurrence [OF H w(1), of k] by (simp add: W n_def)
  have no_left: "take n (drop k S) \<noteq> w" if k: "k < length A" for k
  proof (cases "k + n \<le> length A")
    case True
    then have "take n (drop k S) = take n (drop k A)"
      by (simp add: S_def)
    also have "\<dots> = take n (drop (k + (P + n - 20) - (P - 20)) (drop (P - 20) X @ take 20 Y))"
      using True by (simp add: A_def lenX)
    finally have e: "take n (drop k S)
        = take n (drop (k + (P + n - 20) - (P - 20)) (drop (P - 20) X @ take 20 Y))" .
    show ?thesis unfolding e by (rule H')
  next
    case False
    with k have "take n (drop k S) = drop k A @ take (n - (length A - k)) w"
      by (simp add: S_def n_def)
    moreover from k False
    have "take n (drop (k + (P + n - 20)) (X @ w)) = drop k A @ take (n - (length A - k)) w"
      by (simp add: A_def lenX n_def add.commute)
    moreover have "take n (drop (k + (P + n - 20)) (X @ w)) \<noteq> w"
    proof -
      from k False have "k + (P + n - 20) < P \<and> P < k + (P + n - 20) + length w"
        unfolding lenA n_def by arith
      with straddle show ?thesis
        unfolding n_def X_def by blast
    qed
    ultimately show ?thesis by simp
  qed
  have no_right: "take n (drop k S) \<noteq> w" if k: "length A + 2 * n \<le> k" for k
  proof
    assume eq: "take n (drop k S) = w"
    from k have "drop k S = drop (k - length A - 2 * n) B"
      by (simp add: S_def n_def mult_2 add.assoc)
    with eq have "take (length w) (drop (k - length A - 2 * n) (take (20 - n) Y)) = w"
      by (simp add: B_def n_def)
    then have "take (length w) (drop (k - length A - 2 * n) (take 20 Y)) = w"
      by (rule take_drop_take_mono) simp
    then have "take n (drop (length (drop (P - 20) X) + (k - length A - 2 * n))
                 (drop (P - 20) X @ take 20 Y)) = w"
      by (simp add: n_def)
    with H' show False by blast
  qed
  have "finditer w S 0 = finditer w S (length A)"
    using no_left by (intro finditer_skip) (auto simp: n_def)
  also have "\<dots> = (length A, length A + n) # finditer w S (length A + n)"
    unfolding n_def by (rule finditer_match [OF w(1)]) (simp add: S_def)
  also have "finditer w S (length A + n) = (length A + n, length A + n + n) # finditer w S (length A + n + n)"
    unfolding n_def by (rule finditer_match [OF w(1)]) (simp add: S_def)
  also have "finditer w S (length A + n + n) = []"
    using no_right by (intro finditer_none) (auto simp: n_def)
  finally have "finditer w S 0
      = [(length A, length A + n), (length A + n, length A + n + n)]" .
  then show ?thesis
    unfolding S by (simp add: lenA n_def mult_2 add.assoc)
qed


lemma wrap_insert:
  assumes "0 \<le> pos"
    and "enclosing_pair (finditer w (window text pos) 0) (window_pos pos) = None"
  shows "wrap text pos w
           = (take (nat pos) text @ w @ w @ drop (nat pos) text, pos + int (length w))"
  using assms
  by (simp add: wrap_def window_def window_pos_def Let_def slice_to_nonneg slice_from_nonneg)

lemma wrap_remove_inserted:
  assumes w: "length w \<le> 20" and P: "P \<le> length T"
    and m: "finditer w (window (take P T @ w @ w @ drop P T) (int (P + length w))) 0
           = [(P - (P + length w - 20), P - (P + length w - 20) + length w),
              (P - (P + length w - 20) + length w, P - (P + length w - 20) + 2 * length w)]"
  shows "wrap (take P T @ w @ w @ drop P T) (int (P + length w)) w = (T, int P)"
proof -
  let ?T' = "take P T @ w @ w @ drop P T"
  let ?n = "length w"
  have len: "length (take P T) = P" using P by simp
  have left: "max 0 (int (P + ?n) - 20) = int (P + ?n - 20)"
    by (simp add: max_def)
  have m': "finditer w (slice ?T' (int (P + ?n - 20))
                (min (int (length ?T')) (int (P + ?n) + 20))) 0
           = [(P - (P + ?n - 20), P - (P + ?n - 20) + ?n),
              (P - (P + ?n - 20) + ?n, P - (P + ?n - 20) + 2 * ?n)]"
    using m unfolding window_def left .
  have sp: "int (P + ?n) - int (P + ?n - 20) = int (P - (P + ?n - 20) + ?n)"
    using w by arith
  have start: "int (P + ?n - 20) + int (P - (P + ?n - 20)) = int P"
    using w by arith
  have stop: "int (P + ?n - 20) + int (P - (P + ?n - 20) + 2 * ?n) = int (P + 2 * ?n)"
    using w by arith
  have content: "slice ?T' (int P + int ?n) (int (P + 2 * ?n) - int ?n) = []"
    by (subst slice_nonneg) simp_all
  have before: "slice_to ?T' (int P) = take P T"
    using len by (simp add: slice_to_nonneg)
  have after: "slice_from ?T' (int (P + 2 * ?n)) = drop P T"
    using len by (simp only: slice_from_nonneg of_nat_0_le_iff nat_int) (simp add: mult_2)
  show ?thesis
    unfolding wrap_def Let_def left m' sp
    by (simp add: start stop content before after del: of_nat_add of_nat_mult)
qed


lemma wrap_twice:
  assumes w: "w \<noteq> []" "length w \<le> 20" and P: "P \<le> length T"
    and H: "finditer w (window T (int P)) 0 = []"
    and straddle: "\<forall>j. j < P \<and> P < j + length w
                     \<longrightarrow> take (length w) (drop j (take P T @ w)) \<noteq> w"
  shows "wrap T (int P) w = (take P T @ w @ w @ drop P T, int (P + length w))"
    and "wrap (fst (wrap T (int P) w)) (snd (wrap T (int P) w)) w = (T, int P)"
proof -
  from H have "enclosing_pair (finditer w (window T (int P)) 0) (window_pos (int P)) = None"
    by simp
  then show first: "wrap T (int P) w = (take P T @ w @ w @ drop P T, int (P + length w))"
    using wrap_insert [of "int P" w T] by simp
  from wrap_remove_inserted [OF w(2) P matches_after_insert [OF w P H straddle]]
  show "wrap (fst (wrap T (int P) w)) (snd (wrap T (int P) w)) w = (T, int P)"
    unfolding first by simp
qed

lemma no_straddle_single:
  "length w = 1 \<Longrightarrow> \<forall>j. j < P \<and> P < j + length w
      \<longrightarrow> take (length w) (drop j (take P T @ w)) \<noteq> w"
  by simp

lemma take1_drop: "k < length xs \<Longrightarrow> take (Suc 0) (drop k xs) = [xs ! k]"
  by (simp flip: Cons_nth_drop_Suc)

lemma no_straddle_bold:
  assumes "P \<le> length T" "P = 0 \<or> T ! (P - 1) \<noteq> CHR ''*''"
  shows "\<forall>j. j < P \<and> P < j + length ''**''
      \<longrightarrow> take (length ''**'') (drop j (take P T @ ''**'')) \<noteq> ''**''"
proof (intro allI impI)
  fix j assume j: "j < P \<and> P < j + length ''**''"
  then have jP: "j = P - 1" "0 < P" by auto
  from jP assms(1) have "drop j (take P T) = [T ! (P - 1)]"
    by (simp add: drop_take take1_drop)
  with jP assms show "take (length ''**'') (drop j (take P T @ ''**'')) \<noteq> ''**''"
    by simp
qed

text \<open>
  Claim C3, amended. Let the offset be in range, let the window around it hold no
  occurrence of the delimiter and, for bold, let the character just before the offset
  not be \<open>*\<close>. Then the first \<open>wrapToggle\<close> inserts the empty span at the offset, and
  the second one, on the result of the first, removes it: the text and the offset are
  the original ones. As the claim is written, without the condition on the character
  before the offset, it fails: in \<open>a*\<close> at offset 2 the star before the offset and
  the four inserted ones are matched as \<open>**\<close>, \<open>**\<close> from the left, the offset is
  not between the two matches, and the second call inserts four more stars.
\<close>

theorem wrapToggle_twice_identity:
  assumes "0 \<le> pos" "pos \<le> int (length text)"
    and "finditer (delimiter_text d) (window text pos) 0 = []"
    and "d = Bold \<longrightarrow> pos = 0 \<or> text ! nat (pos - 1) \<noteq> CHR ''*''"
  shows "wrapToggle text pos d
           = (take (nat pos) text @ delimiter_text d @ delimiter_text d @ drop (nat pos) text,
              pos + int (length (delimiter_text d)))
       \<and> wrapToggle (fst (wrapToggle text pos d)) (snd (wrapToggle text pos d)) d = (text, pos)"
proof -
  define P where "P = nat pos"
  from assms(1,2) have P: "P \<le> length text" and pos: "pos = int P"
    by (simp_all add: P_def)
  have w: "delimiter_text d \<noteq> []" "length (delimiter_text d) \<le> 20"
    by (cases d; simp)+
  have straddle: "\<forall>j. j < P \<and> P < j + length (delimiter_text d)
      \<longrightarrow> take (length (delimiter_text d)) (drop j (take P text @ delimiter_text d))
            \<noteq> delimiter_text d"
  proof (cases d)
    case Bold
    with assms(4) pos have "P = 0 \<or> text ! (P - 1) \<noteq> CHR ''*''"
      by (auto simp: nat_diff_distrib')
    from no_straddle_bold [OF P this] Bold show ?thesis by simp
  next
    case Italic
    then show ?thesis using no_straddle_single [of "delimiter_text d" P "text"] by simp
  next
    case Code
    then show ?thesis using no_straddle_single [of "delimiter_text d" P "text"] by simp
  qed
  from assms(3) have H: "finditer (delimiter_text d) (window text (int P)) 0 = []"
    by (simp add: pos)
  from wrap_twice [OF w P H straddle] show ?thesis
    by (simp add: wrapToggle_wrap pos)
qed

theorem wrapToggle_twice_identity_witness:
  "wrapToggle ''a*b'' 1 Bold = (''a*****b'', 3) \<and> wrapToggle ''a*****b'' 3 Bold = (''a*b'', 1)"
proof -
  have f: "finditer (delimiter_text Bold) (window ''a*b'' 1) 0 = []"
    by code_simp
  have h1: "0 \<le> (1::int)" and h2: "(1::int) \<le> int (length ''a*b'')"
    and h4: "Bold = Bold \<longrightarrow> (1::int) = 0 \<or> ''a*b'' ! nat (1 - 1) \<noteq> CHR ''*''"
    by simp_all
  note t = wrapToggle_twice_identity [OF h1 h2 f h4]
  from t [THEN conjunct1] have a: "wrapToggle ''a*b'' 1 Bold = (''a*****b'', 3)"
    by simp
  from t [THEN conjunct2] have "wrapToggle ''a*****b'' 3 Bold = (''a*b'', 1)"
    unfolding a by simp
  with a show ?thesis by simp
qed

theorem wrapToggle_twice_counterexample:
  "(0::int) \<le> 2 \<and> 2 \<le> int (length ''a*'')
   \<and> finditer (delimiter_text Bold) (window ''a*'' 2) 0 = []
   \<and> wrapToggle (fst (wrapToggle ''a*'' 2 Bold)) (snd (wrapToggle ''a*'' 2 Bold)) Bold
       = (''a*********'', 6)
   \<and> wrapToggle (fst (wrapToggle ''a*'' 2 Bold)) (snd (wrapToggle ''a*'' 2 Bold)) Bold
       \<noteq> (''a*'', 2)"
  by code_simp

section \<open>Where the returned offset stays within the new document\<close>

lemma finditer_start_bound: "m \<in> set (finditer w s i) \<Longrightarrow> fst m \<le> length s"
proof (induction w s i rule: finditer.induct)
  case (1 w s i)
  from "1.prems" have "\<not> length s < i"
    by (subst (asm) finditer.simps) (auto split: if_splits)
  with 1 show ?case
    by (subst (asm) (3) finditer.simps) (auto split: if_splits)
qed

lemma enclosing_pair_mem:
  "enclosing_pair ms sp = Some (s, e) \<Longrightarrow> s \<in> set ms \<and> e \<in> set ms"
  by (induction ms sp rule: enclosing_pair.induct) (auto split: if_splits)

lemma wrap_offset_in_range:
  assumes "0 \<le> pos" "pos \<le> int (length text)" "wrap text pos w = (new_text, new_pos)"
  shows "0 \<le> new_pos \<and> new_pos \<le> int (length new_text)"
proof (cases "enclosing_pair (finditer w (window text pos) 0) (window_pos pos)")
  case None
  from wrap_insert [OF assms(1) None] assms show ?thesis by auto
next
  case (Some p)
  obtain s e where p: "p = (s, e)" by (cases p)
  define left where "left = max 0 (pos - 20)"
  define right where "right = min (int (length text)) (pos + 20)"
  from Some p enclosing_pair_mem have "s \<in> set (finditer w (window text pos) 0)"
    by blast
  then have "fst s \<le> length (window text pos)"
    by (rule finditer_start_bound)
  also have "length (window text pos) = nat right - nat left"
    using assms(1,2) unfolding window_def left_def right_def
    by (subst slice_nonneg) auto
  finally have "int (fst s) \<le> right - left"
    using assms(1,2) by (simp add: left_def right_def) 
  then have start: "0 \<le> left + int (fst s)" "left + int (fst s) \<le> int (length text)"
    by (simp_all add: left_def right_def)
  from assms(3) Some p
  have "new_pos = left + int (fst s)
                    + int (length (slice text (left + int (fst s) + int (length w))
                                     (left + int (snd e) - int (length w))))"
    and "new_text = slice_to text (left + int (fst s))
                    @ slice text (left + int (fst s) + int (length w))
                                     (left + int (snd e) - int (length w))
                    @ slice_from text (left + int (snd e))"
    by (auto simp: wrap_def window_def window_pos_def Let_def left_def)
  with start show ?thesis
    by (simp add: slice_to_nonneg)
qed

lemma link_offset_in_range:
  assumes "0 \<le> pos" "pos \<le> int (length text)" "link text pos = (new_text, new_pos)"
  shows "0 \<le> new_pos \<and> new_pos \<le> int (length new_text)"
  using assms by (auto simp: link_def Let_def slice_to_nonneg slice_from_nonneg)

lemma codeBlock_offset_in_range:
  assumes "0 \<le> pos" "pos \<le> int (length text)" "codeBlock text pos = Inr (new_text, new_pos)"
  shows "0 \<le> new_pos \<and> new_pos \<le> int (length new_text)"
  using assms
  by (auto simp: codeBlock_def getitem_def Let_def slice_to_nonneg slice_from_nonneg
      split: if_splits)


lemma line_offset_update_before:
  "k \<le> t \<Longrightarrow> line_offset (ls[t := x]) k = line_offset ls k"
  by (simp add: line_offset_def)

lemma line_end_le_length:
  assumes "t < length ls"
  shows "line_offset ls t + int (length (ls ! t)) \<le> int (length (py_join sep ls))"
proof -
  from assms have ne: "ls \<noteq> []" by auto
  have "line_offset ls (Suc t) \<le> line_offset ls (length ls)"
    using assms by (intro line_offset_mono) simp
  with assms show ?thesis
    by (simp add: length_py_join [OF ne] line_offset_Suc)
qed

lemma line_offset_update_after:
  "t < k \<Longrightarrow> t < length ls
   \<Longrightarrow> line_offset (ls[t := x]) k = line_offset ls k + int (length x) - int (length (ls ! t))"
proof (induction ls arbitrary: t k)
  case Nil
  then show ?case by simp
next
  case (Cons l ls)
  from Cons.prems obtain k' where k: "k = Suc k'" by (cases k) auto
  show ?case
  proof (cases t)
    case 0
    with k show ?thesis by (simp add: line_offset_Cons_Suc)
  next
    case (Suc t')
    with Cons.prems k Cons.IH [of t' k'] show ?thesis
      by (simp add: line_offset_Cons_Suc)
  qed
qed

lemma length_py_join_update:
  assumes "t < length ls"
  shows "int (length (py_join sep (ls[t := x])))
           = int (length (py_join sep ls)) + int (length x) - int (length (ls ! t))"
proof -
  from assms have ne: "ls \<noteq> []" "ls[t := x] \<noteq> []" by auto
  from assms show ?thesis
    by (simp add: length_py_join [OF ne(1)] length_py_join [OF ne(2)]
        line_offset_update_after)
qed

lemma heading_offset_upper:
  assumes "1 \<le> level" "level \<le> 6" "0 \<le> pos" "pos \<le> int (length text)"
    and "heading text pos level = Inr (new_text, new_pos)"
  shows "new_pos \<le> int (length new_text)"
proof -
  define ls where "ls = py_split NL text"
  define x where "x = set_marker level (ls ! target_index ls pos)"
  from target_line_in_range [OF assms(3,4), of NL] obtain t
    where loop: "line_loop ls pos 0 (0, 0) = (t, line_offset ls t)"
      and c: "contains_offset ls t pos"
    by (auto simp: ls_def)
  then have ti: "target_index ls pos = t"
    by (simp add: target_index_def)
  from c have t: "t < length ls"
    by (simp add: contains_offset_def)
  from heading_eq [OF assms(1,2), of "text" pos] assms(5)
  have nt: "new_text = py_join NL (ls[t := x])"
    and np: "new_pos = line_offset ls t
               + min (pos - line_offset ls t + (int (length x) - int (length (ls ! t))))
                   (int (length x))"
    by (simp_all add: ls_def [symmetric] ti loop x_def)
  from t have "line_offset (ls[t := x]) t + int (length ((ls[t := x]) ! t))
                 \<le> int (length (py_join NL (ls[t := x])))"
    by (intro line_end_le_length) simp
  with t have "line_offset ls t + int (length x) \<le> int (length new_text)"
    by (simp add: line_offset_update_before nt)
  with np show ?thesis by simp
qed

lemma length_toggle_marker:
  "int (length (toggle_marker line))
     = int (length line) + (if has_marker line then - 2 else 2)"
proof -
  have l: "length line = length (takeWhile isspace line) + length (dropWhile isspace line)"
    by (metis length_append takeWhile_dropWhile_id)
  show ?thesis
  proof (cases "has_marker line")
    case True
    then have "length (take 2 (dropWhile isspace line)) = 2"
      by (simp add: has_marker_def)
    then have "2 \<le> length (dropWhile isspace line)"
      by (simp add: min_def split: if_splits)
    with True l show ?thesis
      by (simp add: toggle_marker_def has_marker_def Let_def)
  next
    case False
    with l show ?thesis
      by (simp add: toggle_marker_def has_marker_def Let_def)
  qed
qed

lemma listItem_offset_upper:
  assumes "pos \<le> int (length text)" "listItem text pos = Inr (new_text, new_pos)"
  shows "new_pos \<le> int (length new_text)"
proof -
  define ls where "ls = py_split NL text"
  define t where "t = target_index ls pos"
  have t: "t < length ls"
    unfolding t_def ls_def by (rule target_index_less)
  from listItem_eq [of "text" pos] assms(2)
  have nt: "new_text = py_join NL (ls[t := toggle_marker (ls ! t)])"
    and np: "new_pos = (if has_marker (ls ! t) then pos - 2 else pos + 2)"
    by (simp_all add: ls_def t_def)
  have "int (length new_text) = int (length text) + (if has_marker (ls ! t) then - 2 else 2)"
    unfolding nt using length_py_join_update [OF t, of NL "toggle_marker (ls ! t)"]
    by (simp add: length_toggle_marker ls_def py_join_split)
  with np assms(1) show ?thesis by simp
qed

section \<open>Offsets below zero and beyond the end\<close>

text \<open>
  Claim C1 does not hold of \<open>listItem\<close> and \<open>heading\<close>: each returns a negative
  offset at offset 0, \<open>listItem\<close> when the first line has the list marker, \<open>heading\<close>
  when the new marker is shorter than the old one. The other operations keep the
  offset within the new document (\<open>wrap_offset_in_range\<close>, \<open>link_offset_in_range\<close>,
  \<open>codeBlock_offset_in_range\<close>), and these two keep it at most the length of the new
  document (\<open>heading_offset_upper\<close>, \<open>listItem_offset_upper\<close>).
\<close>

theorem offset_below_zero:
  "listItem ''- a'' 0 = Inr (''a'', - 2)
   \<and> heading ''###### x'' 0 1 = Inr (''# x'', - 5)"
  by (simp add: listItem_eq heading_eq NL_def target_index_def toggle_marker_def has_marker_def
      set_marker_def strip_marker_def isspace_def)

text \<open>
  Claim C4 does not hold: when the offset is beyond the end of the document the loop
  ends without \<open>break\<close>, \<open>target_line\<close> is still 0, and \<open>heading\<close> and
  \<open>listItem\<close> rewrite the first line, not the last; they raise nothing, there as
  everywhere (\<open>heading_eq\<close>, \<open>listItem_eq\<close>). On the same input
  \<open>_set_cursor_position\<close> does select the last line.
\<close>

theorem offset_beyond_end_selects_first_line:
  "heading ''a\<newline>b'' 4 1 = Inr (''# a\<newline>b'', 6)
   \<and> listItem ''a\<newline>b'' 4 = Inr (''- a\<newline>b'', 6)
   \<and> cursor_location (set_cursor_position \<lparr>buffer = ''a\<newline>b'', cursor_location = (0, 0)\<rparr> 4)
       = (1, 1)"
  by (simp add: listItem_eq heading_eq NL_def target_index_def toggle_marker_def has_marker_def
      set_marker_def strip_marker_def isspace_def set_cursor_position_def)

end
